theory Spec2Isabelle
  imports Complex_Main "HOL-Library.Word" "HOL-Library.Sublist"
begin

section \<open>JavaScript strings\<close>

text \<open>
  A JavaScript string is a sequence of UTF-16 code units. The two delimiters of the
  code region, U+3010 and U+3011 (the black lenticular brackets), are one code unit
  each, so \<open>slice(1, -1)\<close> removes exactly the two brackets of a match.
\<close>

type_synonym jschar = "16 word"
type_synonym jsstring = "jschar list"

definition ascii :: "string \<Rightarrow> jsstring" where
  "ascii s = map of_char s"

definition lbrack :: jschar where
  "lbrack = 0x3010"

definition rbrack :: jschar where
  "rbrack = 0x3011"

text \<open>The characters \<open>String.prototype.trim\<close> removes: WhiteSpace and LineTerminator.\<close>

definition isWhiteSpace :: "jschar \<Rightarrow> bool" where
  "isWhiteSpace c \<longleftrightarrow>
     c = 0x09 \<or> c = 0x0A \<or> c = 0x0B \<or> c = 0x0C \<or> c = 0x0D \<or> c = 0x20 \<or> c = 0xA0 \<or>
     c = 0x1680 \<or> (0x2000 \<le> c \<and> c \<le> 0x200A) \<or> c = 0x2028 \<or> c = 0x2029 \<or>
     c = 0x202F \<or> c = 0x205F \<or> c = 0x3000 \<or> c = 0xFEFF"

text \<open>The regular-expression class \<open>\w\<close> (no \<open>i\<close> or \<open>u\<close> flag): \<open>[A-Za-z0-9_]\<close>.\<close>

definition isWordChar :: "jschar \<Rightarrow> bool" where
  "isWordChar c \<longleftrightarrow>
     (0x30 \<le> c \<and> c \<le> 0x39) \<or> (0x41 \<le> c \<and> c \<le> 0x5A) \<or> c = 0x5F \<or> (0x61 \<le> c \<and> c \<le> 0x7A)"

definition trim :: "jsstring \<Rightarrow> jsstring" where
  "trim s = rev (dropWhile isWhiteSpace (rev (dropWhile isWhiteSpace s)))"

text \<open>\<open>s.includes(sub)\<close>: \<open>sub\<close> occurs in \<open>s\<close> as a contiguous run.\<close>

fun includesStr :: "jsstring \<Rightarrow> jsstring \<Rightarrow> bool" where
  "includesStr [] sub = (sub = [])"
| "includesStr (x # xs) sub = (prefix sub (x # xs) \<or> includesStr xs sub)"

text \<open>
  \<open>s.slice(start, end)\<close>: a negative index counts from the end, both are clamped to the
  string, and an empty range gives the empty string.
\<close>

definition slice :: "jsstring \<Rightarrow> int \<Rightarrow> int \<Rightarrow> jsstring" where
  "slice s start stop =
     (let len = int (length s);
          from = (if start < 0 then max (len + start) 0 else min start len);
          to = (if stop < 0 then max (len + stop) 0 else min stop len)
      in take (nat (to - from)) (drop (nat from) s))"

text \<open>
  \<open>s.replace(pattern, replacement)\<close> with a string pattern: only the first occurrence of
  the pattern is replaced. The replacement used by the program is the empty string, which
  has no \<open>$\<close> patterns.
\<close>

fun replaceFirst :: "jsstring \<Rightarrow> jsstring \<Rightarrow> jsstring \<Rightarrow> jsstring" where
  "replaceFirst pat rep [] = (if pat = [] then rep else [])"
| "replaceFirst pat rep (x # xs) =
     (if prefix pat (x # xs) then rep @ drop (length pat) (x # xs)
      else x # replaceFirst pat rep xs)"

section \<open>The response parser\<close>

text \<open>
  \<open>text.matchAll(/\<dots>/gi)\<close> for the pattern "open bracket, any characters (lazy), close
  bracket". A match starts at the first open bracket that has a close bracket after it and
  ends at the first close bracket after that start; the search goes on after the match.
  When the first open bracket has no close bracket after it, no later one has either, and
  there is no further match. Neither bracket has a case variant, so the \<open>i\<close> flag changes
  nothing. The result lists the matched strings (\<open>match[0]\<close>) in order.
\<close>

fun splitAt :: "jschar \<Rightarrow> jsstring \<Rightarrow> (jsstring \<times> jsstring) option" where
  "splitAt c [] = None"
| "splitAt c (x # xs) =
     (if x = c then Some ([], xs)
      else (case splitAt c xs of None \<Rightarrow> None | Some (before, after) \<Rightarrow> Some (x # before, after)))"

lemma splitAt_shorter: "splitAt c xs = Some (before, after) \<Longrightarrow> length after < length xs"
  by (induction xs arbitrary: before) (auto split: if_splits option.splits)

function matchAll :: "jsstring \<Rightarrow> jsstring list" where
  "matchAll text =
     (case splitAt lbrack text of
        None \<Rightarrow> []
      | Some (before, rest) \<Rightarrow>
          (case splitAt rbrack rest of
             None \<Rightarrow> []
           | Some (content, after) \<Rightarrow> (lbrack # content @ [rbrack]) # matchAll after))"
  by pat_completeness auto
termination
proof (relation "measure length")
  show "wf (measure length)" by simp
next
  fix t :: jsstring and x2 before rest x2a content after
  assume "splitAt lbrack t = Some x2" "(before, rest) = x2"
    "splitAt rbrack rest = Some x2a" "(content, after) = x2a"
  then have "length rest < length t" "length after < length rest"
    by (auto dest: splitAt_shorter)
  then show "(after, t) \<in> measure length" by simp
qed

declare matchAll.simps [simp del]

text \<open>
  The two fence clean-ups. \<open>content.replace(/^```[\w]*\n?/g, "")\<close>: the pattern is
  anchored at the start of the string (no \<open>m\<close> flag), so it removes at most one leading
  run: three backticks, the longest run of word characters, and one line feed if it
  follows. \<open>.replace(/```$/g, "")\<close> removes three backticks at the very end.
\<close>

definition fence :: jsstring where
  "fence = [0x60, 0x60, 0x60]"

definition stripLeadingFence :: "jsstring \<Rightarrow> jsstring" where
  "stripLeadingFence s =
     (if prefix fence s then
        (case dropWhile isWordChar (drop 3 s) of
           [] \<Rightarrow> []
         | c # r \<Rightarrow> if c = 0x0A then r else c # r)
      else s)"

definition stripTrailingFence :: "jsstring \<Rightarrow> jsstring" where
  "stripTrailingFence s = (if suffix fence s then take (length s - 3) s else s)"

text \<open>The content of a match as the loop computes it before the HTML test.\<close>

definition cleanContent :: "jsstring \<Rightarrow> jsstring" where
  "cleanContent m = trim (stripTrailingFence (stripLeadingFence (slice m 1 (- 1))))"

definition isHtml :: "jsstring \<Rightarrow> bool" where
  "isHtml content \<longleftrightarrow> includesStr content (ascii ''<html'') \<or> includesStr content (ascii ''<!DOCTYPE'')"

record parsed =
  spokenText :: jsstring
  codes :: "jsstring list"

text \<open>One iteration of the \<open>for (const match of matches)\<close> loop on \<open>(codes, spokenText)\<close>.\<close>

definition extractCode :: "jsstring list \<times> jsstring \<Rightarrow> jsstring \<Rightarrow> jsstring list \<times> jsstring" where
  "extractCode st m =
     (let content = cleanContent m
      in if isHtml content then (fst st @ [content], replaceFirst m [] (snd st)) else st)"

definition parseAgentResponse :: "jsstring \<Rightarrow> parsed" where
  "parseAgentResponse text =
     (case foldl extractCode ([], text) (matchAll text) of
        (cs, spoken) \<Rightarrow> \<lparr>spokenText = trim spoken, codes = cs\<rparr>)"

section \<open>The page state and the transcription callback\<close>

datatype speaker = User | Agent

record TranscriptionMessage =
  m_type :: speaker
  m_text :: jsstring
  m_isFinal :: bool
  m_timestamp :: nat

record transcript_entry =
  e_type :: speaker
  e_text :: jsstring
  e_timestamp :: nat

record code_block =
  html :: jsstring
  b_timestamp :: nat

text \<open>
  The React state of the page: the values the setters of the callback and of
  \<open>handleDisconnect\<close> write, the agent id and whether \<open>agoraClientRef.current\<close> holds a
  client.
\<close>

record page_state =
  isConnected :: bool
  isMicActive :: bool
  isGeneratingCode :: bool
  transcript :: "transcript_entry list"
  codeBlocks :: "code_block list"
  currentCode :: jsstring
  agentId :: "jsstring option"
  agoraClient :: bool

text \<open>
  The function passed to \<open>client.setTranscriptionCallback\<close>. \<open>now\<close> is the clock reading
  of \<open>new Date()\<close>.
\<close>

definition commitCode :: "nat \<Rightarrow> page_state \<Rightarrow> jsstring \<Rightarrow> page_state" where
  "commitCode now s code =
     s\<lparr>codeBlocks := codeBlocks s @ [\<lparr>html = code, b_timestamp = now\<rparr>], currentCode := code\<rparr>"

definition transcriptionCallback :: "nat \<Rightarrow> TranscriptionMessage \<Rightarrow> page_state \<Rightarrow> page_state" where
  "transcriptionCallback now message s =
     (let p = parseAgentResponse (m_text message);
          hasLenticularOpenBracket = includesStr (m_text message) [lbrack];
          s1 = (if m_type message = Agent \<and> hasLenticularOpenBracket
                then (if \<not> m_isFinal message then s\<lparr>isGeneratingCode := True\<rparr>
                      else s\<lparr>isGeneratingCode := False\<rparr>)
                else s);
          s2 = (if spokenText p \<noteq> [] \<and> m_isFinal message
                then s1\<lparr>transcript := transcript s1 @
                       [\<lparr>e_type = m_type message, e_text = spokenText p, e_timestamp = now\<rparr>]\<rparr>
                else s1)
      in if length (codes p) > 0 \<and> m_isFinal message
         then foldl (commitCode now) s2 (codes p)
         else s2)"

text \<open>
  \<open>handleDisconnect\<close>. The two awaited calls belong to the network: their outcome is an
  input (\<open>None\<close>: resolved, \<open>Some e\<close>: rejected with \<open>e\<close>). A rejected \<open>await\<close> ends the
  function there, before the setters are reached.
\<close>

datatype js_error = SyntaxError | TypeError | NetworkError


section \<open>The message listener of the client\<close>

text \<open>
  The values an RTM event carries. A number is a double: not-a-number, an infinity, or a
  finite value (the two zeros are equal under \<open>===\<close> and both falsy, and are one value
  here). An object is the list of its own properties.
\<close>

datatype jsnum = NaN | PosInf | NegInf | Fin real

datatype jsval =
    JUndefined
  | JNull
  | JBool bool
  | JNum jsnum
  | JStr jsstring
  | JArr "jsval list"
  | JObj "(jsstring \<times> jsval) list"

text \<open>ToBoolean, as \<open>&&\<close>, \<open>||\<close> and \<open>if\<close> apply it.\<close>

fun truthy :: "jsval \<Rightarrow> bool" where
  "truthy JUndefined = False"
| "truthy JNull = False"
| "truthy (JBool b) = b"
| "truthy (JNum n) = (n \<noteq> NaN \<and> n \<noteq> Fin 0)"
| "truthy (JStr s) = (s \<noteq> [])"
| "truthy (JArr xs) = True"
| "truthy (JObj fs) = True"

definition orElse :: "jsval \<Rightarrow> jsval \<Rightarrow> jsval" where
  "orElse a b = (if truthy a then a else b)"

text \<open>
  Reading a property \<open>v.k\<close>, for the names the listener reads (\<open>customType\<close>,
  \<open>stringData\<close>, \<open>object\<close>, \<open>words\<close>, \<open>text\<close>, \<open>transcription\<close>, \<open>turn_status\<close>,
  \<open>final\<close>), none of which a prototype defines: \<open>undefined\<close> and \<open>null\<close> throw a
  TypeError, an object gives its own property or \<open>undefined\<close>, every other value gives
  \<open>undefined\<close>.
\<close>

fun getProp :: "jsval \<Rightarrow> string \<Rightarrow> js_error + jsval" where
  "getProp JUndefined k = Inl TypeError"
| "getProp JNull k = Inl TypeError"
| "getProp (JObj fs) k = Inr (case map_of fs (ascii k) of None \<Rightarrow> JUndefined | Some v \<Rightarrow> v)"
| "getProp v k = Inr JUndefined"

definition andThen :: "js_error + 'a \<Rightarrow> ('a \<Rightarrow> js_error + 'b) \<Rightarrow> js_error + 'b" where
  "andThen r f = (case r of Inl e \<Rightarrow> Inl e | Inr v \<Rightarrow> f v)"

record rtm_event =
  channelName :: jsval
  message :: jsval

text \<open>
  The first step of the \<open>try\<close> block: from \<open>event.message\<close> to \<open>data\<close>. \<open>JSON.parse\<close>
  is the platform's; the listener takes it as \<open>jsonParse\<close>, from the argument of the call
  to the parsed value or the SyntaxError thrown.
\<close>

definition parseMessage :: "(jsval \<Rightarrow> js_error + jsval) \<Rightarrow> jsval \<Rightarrow> js_error + jsval" where
  "parseMessage jsonParse msg =
     (case msg of
        JStr s \<Rightarrow> jsonParse (JStr s)
      | _ \<Rightarrow>
          andThen (getProp msg ''customType'') (\<lambda>customType.
            if customType = JStr (ascii ''text'')
            then andThen (getProp msg ''stringData'') (\<lambda>stringData.
                   jsonParse (orElse stringData (JStr (ascii ''{}''))))
            else Inr msg))"

text \<open>The expression \<open>data.text || data.words || data.transcription || ""\<close>.\<close>

definition extractText :: "jsval \<Rightarrow> js_error + jsval" where
  "extractText data =
     andThen (getProp data ''text'') (\<lambda>text_field.
     andThen (getProp data ''words'') (\<lambda>words.
     andThen (getProp data ''transcription'') (\<lambda>transcription.
       Inr (orElse text_field (orElse words (orElse transcription (JStr [])))))))"

text \<open>
  The rest of the \<open>try\<close> block: from \<open>data\<close> to the argument of the callback, if the
  callback is called. \<open>text.substring\<close> is a function only when \<open>text\<close> is a string;
  calling it on any other value throws a TypeError. \<open>hasCallback\<close> says that
  \<open>this.onTranscription\<close> is set, \<open>now\<close> is the reading of \<open>Date.now()\<close>.
\<close>

definition handleTranscription :: "bool \<Rightarrow> nat \<Rightarrow> jsval \<Rightarrow> js_error + TranscriptionMessage option" where
  "handleTranscription hasCallback now data =
     andThen (getProp data ''object'') (\<lambda>object.
     andThen (getProp data ''words'') (\<lambda>words.
     andThen (getProp data ''text'') (\<lambda>text_field.
       if object = JStr (ascii ''assistant.transcription'') \<or>
          object = JStr (ascii ''user.transcription'') \<or> truthy words \<or> truthy text_field
       then
         andThen (extractText data) (\<lambda>txt.
         andThen (getProp data ''turn_status'') (\<lambda>turn_status.
         andThen (getProp data ''final'') (\<lambda>final.
           (let isAgent = (object = JStr (ascii ''assistant.transcription''));
                isFinal = (turn_status = JNum (Fin 1) \<or> final = JBool True)
            in case txt of
                 JStr t \<Rightarrow>
                   if t \<noteq> [] \<and> hasCallback
                   then Inr (Some \<lparr>m_type = (if isAgent then Agent else User), m_text = t,
                                    m_isFinal = isFinal, m_timestamp = now\<rparr>)
                   else Inr None
               | _ \<Rightarrow> Inl TypeError))))
       else Inr None)))"

definition tryBlock ::
  "(jsval \<Rightarrow> js_error + jsval) \<Rightarrow> jsstring \<Rightarrow> bool \<Rightarrow> nat \<Rightarrow> rtm_event \<Rightarrow>
     js_error + TranscriptionMessage option" where
  "tryBlock jsonParse channel hasCallback now event =
     (if truthy (channelName event) \<and> channelName event \<noteq> JStr channel then Inr None
      else andThen (parseMessage jsonParse (message event)) (handleTranscription hasCallback now))"

text \<open>
  The listener: the \<open>try\<close> block, and the \<open>catch\<close> that logs the error with
  \<open>console.error\<close> and returns. Its outcome is what leaves it: the call of the callback,
  the errors logged, and the exception thrown out of it. The \<open>console.log\<close> lines are not
  modelled; the \<open>JSON.stringify(event)\<close> before the \<open>try\<close> does not throw on these values.
\<close>

record listener_outcome =
  callbackArg :: "TranscriptionMessage option"
  loggedErrors :: "js_error list"
  escaped :: "js_error option"

definition onMessage ::
  "(jsval \<Rightarrow> js_error + jsval) \<Rightarrow> jsstring \<Rightarrow> bool \<Rightarrow> nat \<Rightarrow> rtm_event \<Rightarrow> listener_outcome" where
  "onMessage jsonParse channel hasCallback now event =
     (case tryBlock jsonParse channel hasCallback now event of
        Inl err \<Rightarrow> \<lparr>callbackArg = None, loggedErrors = [err], escaped = None\<rparr>
      | Inr called \<Rightarrow> \<lparr>callbackArg = called, loggedErrors = [], escaped = None\<rparr>)"

text \<open>
  The page registers \<open>transcriptionCallback\<close> with the client: an inbound event changes
  the page state through that call only.
\<close>

definition pageAfterMessage ::
  "(jsval \<Rightarrow> js_error + jsval) \<Rightarrow> jsstring \<Rightarrow> nat \<Rightarrow> rtm_event \<Rightarrow> page_state \<Rightarrow> page_state" where
  "pageAfterMessage jsonParse channel now event s =
     (case callbackArg (onMessage jsonParse channel True now event) of
        None \<Rightarrow> s
      | Some m \<Rightarrow> transcriptionCallback now m s)"

section \<open>The spoken text, region by region\<close>

text \<open>
  The text with every match whose cleaned content passes the HTML test cut out where it
  stands, and every other match left as it is. The loop of \<open>parseAgentResponse\<close> reaches
  the same string with \<open>replace\<close>, which looks for the first occurrence of the match from
  the start of the string; \<open>fold_spoken\<close> below shows that the two agree.
\<close>

function spokenOf :: "jsstring \<Rightarrow> jsstring" where
  "spokenOf t =
     (case splitAt lbrack t of
        None \<Rightarrow> t
      | Some (before, rest) \<Rightarrow>
          (case splitAt rbrack rest of
             None \<Rightarrow> t
           | Some (content, after) \<Rightarrow>
               before @
               (if isHtml (cleanContent (lbrack # content @ [rbrack])) then []
                else lbrack # content @ [rbrack]) @
               spokenOf after))"
  by pat_completeness auto
termination
proof (relation "measure length")
  show "wf (measure length)" by simp
next
  fix t :: jsstring and x2 before rest x2a content after
  assume "splitAt lbrack t = Some x2" "(before, rest) = x2"
    "splitAt rbrack rest = Some x2a" "(content, after) = x2a"
  then have "length rest < length t" "length after < length rest"
    by (auto dest: splitAt_shorter)
  then show "(after, t) \<in> measure length" by simp
qed

declare spokenOf.simps [simp del]

text \<open>
  No renderable region starts inside \<open>A\<close>: the condition under which \<open>replace\<close>, run on
  \<open>A\<close> followed by a renderable match, removes that match and nothing earlier.
\<close>

definition noEarly :: "jsstring \<Rightarrow> bool" where
  "noEarly A \<longleftrightarrow>
     (\<forall>c S Y. rbrack \<notin> set c \<and> isHtml (cleanContent (lbrack # c @ [rbrack])) \<and> S \<noteq> [] \<and> suffix S A
        \<longrightarrow> \<not> prefix (lbrack # c @ [rbrack]) (S @ Y))"

section \<open>The wording of the specification\<close>

text \<open>
  The specification's test for a renderable region: the cleaned content, trimmed again,
  starts with a doctype declaration or the opening tag of the root element, in any letter
  case.
\<close>

definition toLowerAscii :: "jschar \<Rightarrow> jschar" where
  "toLowerAscii c = (if 0x41 \<le> c \<and> c \<le> 0x5A then c + 0x20 else c)"

definition spec_startsWithRootMarker :: "jsstring \<Rightarrow> bool" where
  "spec_startsWithRootMarker content =
     (let t = map toLowerAscii (trim content)
      in prefix (ascii ''<!doctype'') t \<or> prefix (ascii ''<html'') t)"

text \<open>
  The specification's reconstruction: the texts of the returned spans in order (the spoken
  text, then each code), with the two brackets put back around each code.
\<close>

definition spec_reassemble :: "parsed \<Rightarrow> jsstring" where
  "spec_reassemble p = spokenText p @ concat (map (\<lambda>c. lbrack # c @ [rbrack]) (codes p))"

section \<open>Example values\<close>

definition page1 :: page_state where
  "page1 =
     \<lparr>isConnected = True, isMicActive = True, isGeneratingCode = False,
      transcript = [\<lparr>e_type = User, e_text = ascii ''make a button'', e_timestamp = 1\<rparr>],
      codeBlocks = [\<lparr>html = ascii ''<html>v1</html>'', b_timestamp = 2\<rparr>],
      currentCode = ascii ''<html>v1</html>'',
      agentId = Some (ascii ''agent-1''), agoraClient = True\<rparr>"

definition interimWithCode :: TranscriptionMessage where
  "interimWithCode =
     \<lparr>m_type = Agent, m_text = lbrack # ascii ''<html>v2</html>'' @ [rbrack],
      m_isFinal = False, m_timestamp = 3\<rparr>"


definition justKidding :: TranscriptionMessage where
  "justKidding =
     \<lparr>m_type = Agent, m_text = lbrack # ascii ''just kidding, no code here'' @ [rbrack],
      m_isFinal = True, m_timestamp = 3\<rparr>"


definition finalMixed :: TranscriptionMessage where
  "finalMixed =
     \<lparr>m_type = Agent,
      m_text = (lbrack # ascii ''no'' @ [rbrack]) @ ascii '' x'' @
               (lbrack # ascii ''<html>'' @ [rbrack]) @ (lbrack # ascii ''no'' @ [rbrack]),
      m_isFinal = True, m_timestamp = 3\<rparr>"

definition finalLateMarker :: TranscriptionMessage where
  "finalLateMarker =
     \<lparr>m_type = Agent, m_text = lbrack # ascii ''x<html>'' @ [rbrack],
      m_isFinal = True, m_timestamp = 3\<rparr>"

text \<open>
  A stand-in for \<open>JSON.parse\<close> in the examples. It agrees with \<open>JSON.parse\<close> on the two
  arguments the examples pass: \<open>{}\<close> is the empty object, \<open>not json\<close> is a SyntaxError.
\<close>

definition sampleParse :: "jsval \<Rightarrow> js_error + jsval" where
  "sampleParse v = (if v = JStr (ascii ''{}'') then Inr (JObj []) else Inl SyntaxError)"

definition agentFinal :: jsval where
  "agentFinal =
     JObj [(ascii ''object'', JStr (ascii ''assistant.transcription'')),
           (ascii ''text'', JStr (ascii ''hi'')),
           (ascii ''turn_status'', JNum (Fin 0)),
           (ascii ''final'', JBool True)]"

definition agentEmpty :: jsval where
  "agentEmpty =
     JObj [(ascii ''object'', JStr (ascii ''assistant.transcription'')),
           (ascii ''text'', JStr []),
           (ascii ''turn_status'', JNum (Fin 1))]"

section \<open>Facts about the parser\<close>

lemmas parser_eval =
  ascii_def lbrack_def rbrack_def isWhiteSpace_def isWordChar_def trim_def slice_def
  matchAll.simps fence_def stripLeadingFence_def stripTrailingFence_def cleanContent_def
  isHtml_def extractCode_def parseAgentResponse_def suffix_to_prefix

lemma splitAt_None: "splitAt c xs = None \<longleftrightarrow> c \<notin> set xs"
  by (induction xs) (auto split: option.splits)

lemma splitAt_Some:
  "splitAt c xs = Some (before, after) \<Longrightarrow> xs = before @ c # after \<and> c \<notin> set before"
  by (induction xs arbitrary: before) (auto split: if_splits option.splits)

lemma includesStr_sublist: "includesStr s sub \<longleftrightarrow> sublist sub s"
  by (induction s) (auto simp: sublist_Cons_right)


text \<open>
  When no close bracket follows the first open bracket, no open bracket of the text has a
  close bracket after it, and the pattern has no match.
\<close>

lemma no_close_after_open:
  "rbrack \<notin> set (dropWhile (\<lambda>c. c \<noteq> lbrack) t) \<longleftrightarrow>
     (\<forall>pre post. t = pre @ lbrack # post \<longrightarrow> rbrack \<notin> set post)"
proof
  assume a: "rbrack \<notin> set (dropWhile (\<lambda>c. c \<noteq> lbrack) t)"
  show "\<forall>pre post. t = pre @ lbrack # post \<longrightarrow> rbrack \<notin> set post"
  proof (intro allI impI)
    fix pre post assume t: "t = pre @ lbrack # post"
    have "set post \<subseteq> set (dropWhile (\<lambda>c. c \<noteq> lbrack) t)"
      unfolding t by (induction pre) auto
    with a show "rbrack \<notin> set post" by blast
  qed
next
  assume a: "\<forall>pre post. t = pre @ lbrack # post \<longrightarrow> rbrack \<notin> set post"
  show "rbrack \<notin> set (dropWhile (\<lambda>c. c \<noteq> lbrack) t)"
  proof (cases "dropWhile (\<lambda>c. c \<noteq> lbrack) t")
    case Nil
    show ?thesis unfolding Nil by simp
  next
    case (Cons x post)
    then have x: "x = lbrack" using hd_dropWhile [of "\<lambda>c. c \<noteq> lbrack" t] by force
    have "t = takeWhile (\<lambda>c. c \<noteq> lbrack) t @ lbrack # post"
      using takeWhile_dropWhile_id [of "\<lambda>c. c \<noteq> lbrack" t] Cons x by simp
    with a have "rbrack \<notin> set post" by blast
    with Cons x show ?thesis by (simp add: lbrack_def rbrack_def)
  qed
qed


section \<open>Cleaning a region keeps its markers\<close>

lemma slice_region: "slice (x # c @ [y]) 1 (- 1) = c"
  by (simp add: slice_def Let_def)

lemma cleanContent_region:
  "cleanContent (x # c @ [y]) = trim (stripTrailingFence (stripLeadingFence c))"
  by (simp add: cleanContent_def slice_region)

lemma sublist_trans: "sublist a b \<Longrightarrow> sublist b c \<Longrightarrow> sublist a c"
  by (meson sublist_order.order_trans)

lemma sublist_dropWhile_keep:
  assumes "sublist m s" "m \<noteq> []" "\<not> P (hd m)"
  shows "sublist m (dropWhile P s)"
proof -
  from assms(1) obtain ps ss where s: "s = ps @ m @ ss" by (auto simp: sublist_def)
  show ?thesis
  proof (cases "\<forall>x\<in>set ps. P x")
    case True
    then have "dropWhile P s = dropWhile P (m @ ss)" by (simp add: s)
    also have "\<dots> = m @ ss" using assms(2,3) by (cases m) auto
    finally show ?thesis by simp
  next
    case False
    then have "dropWhile P s = dropWhile P ps @ m @ ss" by (auto simp: s dropWhile_append1)
    then show ?thesis by simp
  qed
qed

lemma sublist_trim_keep:
  assumes "sublist m s" "m \<noteq> []" "\<not> isWhiteSpace (hd m)" "\<not> isWhiteSpace (last m)"
  shows "sublist m (trim s)"
proof -
  have "sublist m (dropWhile isWhiteSpace s)"
    using assms(1-3) by (rule sublist_dropWhile_keep)
  then have "sublist (rev m) (rev (dropWhile isWhiteSpace s))" by simp
  then have "sublist (rev m) (dropWhile isWhiteSpace (rev (dropWhile isWhiteSpace s)))"
    using assms(2,4) by (intro sublist_dropWhile_keep) (simp_all add: hd_rev)
  then show ?thesis by (simp add: trim_def sublist_rev_right)
qed

lemma sublist_trim: "sublist (trim s) s"
proof -
  have "sublist (trim s) (dropWhile isWhiteSpace s)"
    by (simp add: trim_def sublist_rev_left)
  then show ?thesis
    using sublist_dropWhile sublist_trans by blast
qed

lemma stripLeadingFence_suffix: "suffix (stripLeadingFence s) s"
proof (cases "prefix fence s")
  case False
  then show ?thesis by (simp add: stripLeadingFence_def)
next
  case True
  define d where "d = dropWhile isWordChar (drop 3 s)"
  have a: "suffix d s"
    unfolding d_def using suffix_dropWhile suffix_drop suffix_order.trans by blast
  have e: "stripLeadingFence s = (case d of [] \<Rightarrow> [] | c # r \<Rightarrow> if c = 0x0A then r else c # r)"
    using True by (simp add: stripLeadingFence_def d_def)
  show ?thesis
  proof (cases d)
    case Nil
    then show ?thesis by (simp add: e)
  next
    case (Cons c r)
    with a have "suffix (c # r) s" by simp
    moreover from this have "suffix r s" by (rule suffix_ConsD)
    ultimately show ?thesis by (simp add: e Cons)
  qed
qed

lemma prefix_before_foreign:
  assumes "prefix f (p @ l # c)" "l \<notin> set f"
  shows "prefix f p"
  using assms by (auto simp: prefix_append prefix_Cons)

lemma suffix_after_foreign:
  assumes "suffix f (p @ l # c)" "l \<notin> set f"
  shows "suffix f c"
  using assms by (auto simp: suffix_append suffix_Cons)

lemma stripLeadingFence_append:
  assumes "\<not> isWordChar l" "l \<noteq> 0x0A" "l \<noteq> 0x60"
  shows "\<exists>p'. stripLeadingFence (p @ l # c) = p' @ l # c"
proof (cases "prefix fence (p @ l # c)")
  case False
  then show ?thesis by (auto simp: stripLeadingFence_def)
next
  case True
  have "l \<notin> set fence" using assms(3) by (simp add: fence_def)
  with True have "prefix fence p" by (rule prefix_before_foreign)
  then obtain q where p: "p = fence @ q" by (auto simp: prefix_def)
  have d: "drop 3 (p @ l # c) = q @ l # c" by (simp add: p fence_def)
  show ?thesis
  proof (cases "\<forall>x\<in>set q. isWordChar x")
    case all: True
    then have "dropWhile isWordChar (q @ l # c) = l # c" using assms(1) by simp
    with True d assms(2) have "stripLeadingFence (p @ l # c) = [] @ l # c"
      by (simp add: stripLeadingFence_def)
    then show ?thesis by blast
  next
    case False
    then have dw: "dropWhile isWordChar (q @ l # c) = dropWhile isWordChar q @ l # c"
      by (auto simp: dropWhile_append1)
    from False obtain x r where xr: "dropWhile isWordChar q = x # r"
      by (cases "dropWhile isWordChar q") (auto simp: dropWhile_eq_Nil_conv)
    with True d dw have "stripLeadingFence (p @ l # c) = (if x = 0x0A then r else x # r) @ l # c"
      by (simp add: stripLeadingFence_def)
    then show ?thesis by blast
  qed
qed

lemma stripTrailingFence_prefix: "prefix (stripTrailingFence s) s"
  by (simp add: stripTrailingFence_def take_is_prefix)

lemma stripTrailingFence_snoc: "stripTrailingFence (s @ fence) = s"
proof -
  have "suffix fence (s @ fence)" by (rule suffixI) simp
  moreover have "length fence = 3" by (simp add: fence_def)
  ultimately show ?thesis by (simp add: stripTrailingFence_def)
qed

lemma stripTrailingFence_extend:
  assumes "sublist M (stripTrailingFence c1)" "suffix c1 c" "3 \<le> length M" "l \<noteq> 0x60"
  shows "sublist M (stripTrailingFence (p @ l # c))"
proof (cases "suffix fence (p @ l # c)")
  case False
  have "sublist M c1"
    using assms(1) stripTrailingFence_prefix prefix_imp_sublist sublist_trans by blast
  then have "sublist M c"
    using assms(2) suffix_imp_sublist sublist_trans by blast
  then have "sublist M (p @ l # c)"
    using sublist_trans [of M c "p @ l # c"] by (simp add: suffix_imp_sublist suffix_def)
  with False show ?thesis by (simp add: stripTrailingFence_def)
next
  case True
  have "l \<notin> set fence" using assms(4) by (simp add: fence_def)
  with True have "suffix fence c" by (rule suffix_after_foreign)
  then obtain c0 where c: "c = c0 @ fence" by (auto simp: suffix_def)
  have r: "stripTrailingFence (p @ l # c) = p @ l # c0"
    using stripTrailingFence_snoc [of "p @ l # c0"] by (simp add: c)
  have "3 \<le> length c1"
    using assms(1,3) sublist_length_le [of M "stripTrailingFence c1"]
      prefix_length_le [OF stripTrailingFence_prefix, of c1] by linarith
  then have "length fence \<le> length c1" by (simp add: fence_def)
  with assms(2) \<open>suffix fence c\<close> have "suffix fence c1"
    using suffix_length_suffix by blast
  then obtain c10 where c1: "c1 = c10 @ fence" by (auto simp: suffix_def)
  with assms(2) c have "suffix c10 c0" by simp
  moreover have "sublist M c10" using assms(1) by (simp add: c1 stripTrailingFence_snoc)
  ultimately have "sublist M c0"
    using suffix_imp_sublist sublist_trans by blast
  then have "sublist M (p @ l # c0)"
    using sublist_trans [of M c0 "p @ l # c0"] by (simp add: suffix_imp_sublist suffix_def)
  with r show ?thesis by simp
qed

lemma lbrack_plain: "\<not> isWordChar lbrack" "lbrack \<noteq> 0x0A" "lbrack \<noteq> 0x60" "\<not> isWhiteSpace lbrack"
  "\<not> isWhiteSpace rbrack" "lbrack \<noteq> rbrack"
  by (simp_all add: lbrack_def rbrack_def isWordChar_def isWhiteSpace_def)

lemma marker_extend:
  assumes "sublist M (trim (stripTrailingFence (stripLeadingFence c)))"
    and "3 \<le> length M" "\<not> isWhiteSpace (hd M)" "\<not> isWhiteSpace (last M)"
  shows "sublist M (trim (stripTrailingFence (stripLeadingFence (p @ lbrack # c))))"
proof -
  obtain p' where p': "stripLeadingFence (p @ lbrack # c) = p' @ lbrack # c"
    using stripLeadingFence_append [OF lbrack_plain(1-3)] by blast
  have "sublist M (stripTrailingFence (stripLeadingFence c))"
    using assms(1) sublist_trim sublist_trans by blast
  then have "sublist M (stripTrailingFence (p' @ lbrack # c))"
    using stripLeadingFence_suffix assms(2) lbrack_plain(3) by (rule stripTrailingFence_extend)
  moreover have "M \<noteq> []" using assms(2) by auto
  ultimately show ?thesis
    unfolding p' using assms(3,4) by (intro sublist_trim_keep)
qed

lemma isHtml_sublist:
  "isHtml c \<longleftrightarrow> sublist (ascii ''<html'') c \<or> sublist (ascii ''<!DOCTYPE'') c"
  by (simp add: isHtml_def includesStr_sublist)

lemma isHtml_extend:
  assumes "isHtml (cleanContent (lbrack # c @ [rbrack]))"
  shows "isHtml (cleanContent (lbrack # (p @ lbrack # c) @ [rbrack]))"
proof -
  have 1: "3 \<le> length (ascii ''<html'')" "\<not> isWhiteSpace (hd (ascii ''<html''))"
    "\<not> isWhiteSpace (last (ascii ''<html''))"
    by (simp_all add: ascii_def isWhiteSpace_def)
  have 2: "3 \<le> length (ascii ''<!DOCTYPE'')" "\<not> isWhiteSpace (hd (ascii ''<!DOCTYPE''))"
    "\<not> isWhiteSpace (last (ascii ''<!DOCTYPE''))"
    by (simp_all add: ascii_def isWhiteSpace_def)
  from assms show ?thesis
    unfolding isHtml_sublist cleanContent_region
    using marker_extend [OF _ 1] marker_extend [OF _ 2] by blast
qed

section \<open>The loop removes exactly the renderable regions\<close>

lemma noEarlyD:
  assumes "noEarly A" "rbrack \<notin> set c" "isHtml (cleanContent (lbrack # c @ [rbrack]))"
    "S \<noteq> []" "suffix S A"
  shows "\<not> prefix (lbrack # c @ [rbrack]) (S @ Y)"
proof -
  from assms(1) have "rbrack \<notin> set c \<and> isHtml (cleanContent (lbrack # c @ [rbrack])) \<and> S \<noteq> [] \<and> suffix S A
        \<longrightarrow> \<not> prefix (lbrack # c @ [rbrack]) (S @ Y)"
    unfolding noEarly_def by (elim allE)
  with assms(2-5) show ?thesis by simp
qed

lemma sublist_prepend:
  assumes "sublist m X"
  shows "sublist m (P @ X)"
proof -
  from assms obtain ps ss where "X = ps @ m @ ss" by (auto simp: sublist_def)
  then have "P @ X = (P @ ps) @ m @ ss" by simp
  then show ?thesis unfolding sublist_def by blast
qed

lemma replaceFirst_here: "m \<noteq> [] \<Longrightarrow> replaceFirst m r (m @ Y) = r @ Y"
  by (cases m) simp_all

lemma replaceFirst_skip:
  assumes "\<And>S. S \<noteq> [] \<Longrightarrow> suffix S A \<Longrightarrow> \<not> prefix m (S @ Y)"
  shows "replaceFirst m r (A @ Y) = A @ replaceFirst m r Y"
  using assms
proof (induction A)
  case Nil
  then show ?case by simp
next
  case (Cons a A)
  have "\<not> prefix m ((a # A) @ Y)" using Cons.prems [of "a # A"] by simp
  moreover have "replaceFirst m r (A @ Y) = A @ replaceFirst m r Y"
    using Cons.prems by (intro Cons.IH) (simp add: suffix_ConsI)
  ultimately show ?case by simp
qed

lemma first_close:
  "x \<notin> set u \<Longrightarrow> x \<notin> set t \<Longrightarrow> prefix (u @ [x]) (t @ x # Y) \<Longrightarrow> u = t"
proof (induction u arbitrary: t)
  case Nil
  then show ?case by (cases t) simp_all
next
  case (Cons a u)
  show ?case
  proof (cases t)
    case Nil
    with Cons.prems show ?thesis by simp
  next
    case (Cons b t')
    with Cons.prems have "a = b" "x \<notin> set u" "x \<notin> set t'" "prefix (u @ [x]) (t' @ x # Y)"
      by simp_all
    with Cons.IH [of t'] Cons show ?thesis by simp
  qed
qed

lemma noEarly_Nil: "noEarly []"
  by (simp add: noEarly_def)

lemma noEarly_append:
  assumes "noEarly A" "noEarly B"
  shows "noEarly (A @ B)"
  unfolding noEarly_def
proof (intro allI impI notI, elim conjE)
  fix c S Y
  assume c: "rbrack \<notin> set c" "isHtml (cleanContent (lbrack # c @ [rbrack]))"
    and S: "S \<noteq> []" "suffix S (A @ B)" and p: "prefix (lbrack # c @ [rbrack]) (S @ Y)"
  from S(2) have "suffix S B \<or> (\<exists>S'. S = S' @ B \<and> suffix S' A)"
    by (simp add: suffix_append)
  then show False
  proof (elim disjE exE conjE)
    assume "suffix S B"
    from noEarlyD [OF assms(2) c S(1) this] p show False by simp
  next
    fix S' assume S': "S = S' @ B" "suffix S' A"
    show False
    proof (cases "S' = []")
      case True
      with S' have "suffix S B" by simp
      from noEarlyD [OF assms(2) c S(1) this] p show False by simp
    next
      case False
      from p have "prefix (lbrack # c @ [rbrack]) (S' @ (B @ Y))" by (simp add: S'(1))
      with noEarlyD [OF assms(1) c False S'(2)] show False by simp
    qed
  qed
qed

lemma noEarly_gap:
  assumes "lbrack \<notin> set g"
  shows "noEarly g"
  unfolding noEarly_def
proof (intro allI impI notI, elim conjE)
  fix c S Y
  assume S: "S \<noteq> []" "suffix S g" and p: "prefix (lbrack # c @ [rbrack]) (S @ Y)"
  from S(1) p have "hd S = lbrack" by (cases S) auto
  with S(1) have "lbrack \<in> set S" by (cases S) auto
  with S(2) assms show False by (auto simp: suffix_def)
qed

lemma noEarly_region:
  assumes "rbrack \<notin> set c" "\<not> isHtml (cleanContent (lbrack # c @ [rbrack]))"
  shows "noEarly (lbrack # c @ [rbrack])"
  unfolding noEarly_def
proof (intro allI impI notI, elim conjE)
  fix cm S Y
  assume cm: "rbrack \<notin> set cm" "isHtml (cleanContent (lbrack # cm @ [rbrack]))"
    and S: "S \<noteq> []" "suffix S (lbrack # c @ [rbrack])"
    and p: "prefix (lbrack # cm @ [rbrack]) (S @ Y)"
  from S have "\<exists>T. S = T @ [rbrack] \<and> suffix T (lbrack # c)"
    using suffix_snoc [of S "lbrack # c" rbrack] by simp
  then obtain T where T: "S = T @ [rbrack]" "suffix T (lbrack # c)" by blast
  have "set T \<subseteq> set (lbrack # c)" using T(2) by (rule set_mono_suffix)
  with assms(1) have nT: "rbrack \<notin> set T" using lbrack_plain(6) by auto
  have ncm: "rbrack \<notin> set (lbrack # cm)" using cm(1) lbrack_plain(6) by auto
  from p have "prefix ((lbrack # cm) @ [rbrack]) (T @ rbrack # Y)" by (simp add: T)
  with ncm nT have "lbrack # cm = T" by (rule first_close)
  with T(2) have "suffix (lbrack # cm) (lbrack # c)" by simp
  then consider "cm = c" | "suffix (lbrack # cm) c" by (auto simp: suffix_Cons)
  then show False
  proof cases
    case 1
    with cm(2) assms(2) show False by simp
  next
    case 2
    then obtain q where "c = q @ lbrack # cm" by (auto simp: suffix_def)
    with isHtml_extend [OF cm(2), of q] assms(2) show False by simp
  qed
qed

lemma fold_codes:
  "fst (foldl extractCode (cs, sp) ms) = cs @ filter isHtml (map cleanContent ms)"
  by (induction ms arbitrary: cs sp) (simp_all add: extractCode_def Let_def)

lemma fold_spoken:
  assumes "noEarly A"
  shows "snd (foldl extractCode (cs, A @ t) (matchAll t)) = A @ spokenOf t"
  using assms
proof (induction t arbitrary: A cs rule: matchAll.induct)
  case (1 t)
  show ?case
  proof (cases "splitAt lbrack t")
    case None
    then show ?thesis by (simp add: matchAll.simps [of t] spokenOf.simps [of t])
  next
    case (Some x2)
    obtain before rest where x2: "x2 = (before, rest)" by (cases x2)
    show ?thesis
    proof (cases "splitAt rbrack rest")
      case None
      with Some x2 show ?thesis by (simp add: matchAll.simps [of t] spokenOf.simps [of t])
    next
      case inner: (Some x2a)
      obtain content after where x2a: "x2a = (content, after)" by (cases x2a)
      let ?m = "lbrack # content @ [rbrack]"
      from Some x2 have t1: "t = before @ lbrack # rest" "lbrack \<notin> set before"
        using splitAt_Some by blast+
      from inner x2a have t2: "rest = content @ rbrack # after" "rbrack \<notin> set content"
        using splitAt_Some by blast+
      have t: "t = before @ ?m @ after" by (simp add: t1 t2)
      have ms: "matchAll t = ?m # matchAll after"
        using Some x2 inner x2a by (simp add: matchAll.simps [of t])
      have IH: "\<And>B ds. noEarly B \<Longrightarrow>
          snd (foldl extractCode (ds, B @ after) (matchAll after)) = B @ spokenOf after"
        using "1.IH" [OF Some x2 [symmetric] inner x2a [symmetric]] by blast
      have nb: "noEarly (A @ before)"
        by (rule noEarly_append [OF "1.prems" noEarly_gap [OF t1(2)]])
      show ?thesis
      proof (cases "isHtml (cleanContent ?m)")
        case True
        have sp: "spokenOf t = before @ spokenOf after"
          using Some x2 inner x2a True by (simp add: spokenOf.simps [of t])
        have "replaceFirst ?m [] ((A @ before) @ ?m @ after) = (A @ before) @ replaceFirst ?m [] (?m @ after)"
        proof (rule replaceFirst_skip)
          fix S assume "S \<noteq> []" "suffix S (A @ before)"
          then show "\<not> prefix ?m (S @ ?m @ after)"
            by (rule noEarlyD [OF nb t2(2) True])
        qed
        also have "replaceFirst ?m [] (?m @ after) = [] @ after"
          by (rule replaceFirst_here) simp
        finally have rf: "replaceFirst ?m [] (A @ t) = (A @ before) @ after"
          by (simp add: t)
        have "extractCode (cs, A @ t) ?m = (cs @ [cleanContent ?m], (A @ before) @ after)"
          using True rf by (simp add: extractCode_def Let_def)
        then show ?thesis
          using IH [OF nb] by (simp add: ms sp)
      next
        case False
        have sp: "spokenOf t = before @ ?m @ spokenOf after"
          using Some x2 inner x2a False by (simp add: spokenOf.simps [of t])
        have nm: "noEarly ((A @ before) @ ?m)"
          by (rule noEarly_append [OF nb noEarly_region [OF t2(2) False]])
        have "extractCode (cs, A @ t) ?m = (cs, ((A @ before) @ ?m) @ after)"
          using False by (simp add: extractCode_def Let_def t)
        then show ?thesis
          using IH [OF nm] by (simp add: ms sp)
      qed
    qed
  qed
qed

lemma matchAll_region:
  "m \<in> set (matchAll t) \<Longrightarrow> \<exists>c. m = lbrack # c @ [rbrack] \<and> rbrack \<notin> set c"
proof (induction t rule: matchAll.induct)
  case (1 t)
  show ?case
  proof (cases "splitAt lbrack t")
    case None
    with "1.prems" show ?thesis by (simp add: matchAll.simps [of t])
  next
    case (Some x2)
    obtain before rest where x2: "x2 = (before, rest)" by (cases x2)
    show ?thesis
    proof (cases "splitAt rbrack rest")
      case None
      with Some x2 "1.prems" show ?thesis by (simp add: matchAll.simps [of t])
    next
      case inner: (Some x2a)
      obtain content after where x2a: "x2a = (content, after)" by (cases x2a)
      from inner x2a have "rbrack \<notin> set content" using splitAt_Some by blast
      moreover have "m = lbrack # content @ [rbrack] \<or> m \<in> set (matchAll after)"
        using "1.prems" Some x2 inner x2a by (simp add: matchAll.simps [of t])
      ultimately show ?thesis
        using "1.IH" [OF Some x2 [symmetric] inner x2a [symmetric]] by blast
    qed
  qed
qed

lemma region_in_spokenOf:
  "m \<in> set (matchAll t) \<Longrightarrow> \<not> isHtml (cleanContent m) \<Longrightarrow> sublist m (spokenOf t)"
proof (induction t rule: matchAll.induct)
  case (1 t)
  show ?case
  proof (cases "splitAt lbrack t")
    case None
    with "1.prems" show ?thesis by (simp add: matchAll.simps [of t])
  next
    case (Some x2)
    obtain before rest where x2: "x2 = (before, rest)" by (cases x2)
    show ?thesis
    proof (cases "splitAt rbrack rest")
      case None
      with Some x2 "1.prems" show ?thesis by (simp add: matchAll.simps [of t])
    next
      case inner: (Some x2a)
      obtain content after where x2a: "x2a = (content, after)" by (cases x2a)
      let ?m = "lbrack # content @ [rbrack]"
      let ?k = "if isHtml (cleanContent ?m) then [] else ?m"
      have sp: "spokenOf t = before @ ?k @ spokenOf after"
        using Some x2 inner x2a by (simp add: spokenOf.simps [of t])
      from "1.prems"(1) consider "m = ?m" | "m \<in> set (matchAll after)"
        using Some x2 inner x2a by (auto simp: matchAll.simps [of t])
      then show ?thesis
      proof cases
        case 1
        with "1.prems"(2) have "spokenOf t = before @ m @ spokenOf after" by (simp add: sp)
        then show ?thesis by simp
      next
        case 2
        then have "sublist m (spokenOf after)"
          using "1.IH" [OF Some x2 [symmetric] inner x2a [symmetric]] "1.prems"(2) by blast
        then have "sublist m ((before @ ?k) @ spokenOf after)"
          by (rule sublist_prepend)
        then show ?thesis by (simp add: sp)
      qed
    qed
  qed
qed

lemma parse_spoken: "spokenText (parseAgentResponse t) = trim (spokenOf t)"
proof -
  have "snd (foldl extractCode ([], [] @ t) (matchAll t)) = [] @ spokenOf t"
    using noEarly_Nil by (rule fold_spoken)
  then show ?thesis
    by (cases "foldl extractCode ([], t) (matchAll t)") (simp add: parseAgentResponse_def)
qed

lemma parse_codes: "codes (parseAgentResponse t) = filter isHtml (map cleanContent (matchAll t))"
  using fold_codes [of "[]" t "matchAll t"]
  by (cases "foldl extractCode ([], t) (matchAll t)") (simp add: parseAgentResponse_def)

lemma region_kept:
  assumes "m \<in> set (matchAll t)" "\<not> isHtml (cleanContent m)"
  shows "sublist m (spokenText (parseAgentResponse t))"
proof -
  obtain c where m: "m = lbrack # c @ [rbrack]" using matchAll_region [OF assms(1)] by blast
  have "sublist m (spokenOf t)" using assms by (rule region_in_spokenOf)
  then have "sublist m (trim (spokenOf t))"
    by (rule sublist_trim_keep) (simp_all add: m lbrack_plain)
  then show ?thesis by (simp add: parse_spoken)
qed

lemma transcript_commit: "transcript (foldl (commitCode now) s cs) = transcript s"
  by (induction cs arbitrary: s) (simp_all add: commitCode_def)

section \<open>Scanning a text piece by piece\<close>

lemma splitAt_append_Some:
  "splitAt c xs = Some (b, a) \<Longrightarrow> splitAt c (xs @ ys) = Some (b, a @ ys)"
  by (induction xs arbitrary: b) (auto split: if_splits option.splits)

lemma splitAt_append_None:
  "splitAt c xs = None \<Longrightarrow>
     splitAt c (xs @ ys) = (case splitAt c ys of None \<Rightarrow> None | Some (b, a) \<Rightarrow> Some (xs @ b, a))"
  by (induction xs) (auto split: if_splits option.splits)

lemma splitAt_first: "c \<notin> set b \<Longrightarrow> splitAt c (b @ c # a) = Some (b, a)"
  by (induction b) auto

lemma closed_tail:
  assumes "lbrack \<notin> set (takeWhile (\<lambda>x. x \<noteq> rbrack) (rev p))" and "p = pre @ lbrack # post"
  shows "rbrack \<in> set post"
proof (rule ccontr)
  assume n: "rbrack \<notin> set post"
  have r: "rev p = rev post @ lbrack # rev pre" by (simp add: assms(2))
  have "takeWhile (\<lambda>x. x \<noteq> rbrack) (rev post @ lbrack # rev pre) =
      rev post @ takeWhile (\<lambda>x. x \<noteq> rbrack) (lbrack # rev pre)"
    by (rule takeWhile_append2) (use n in auto)
  then have "lbrack \<in> set (takeWhile (\<lambda>x. x \<noteq> rbrack) (rev p))"
    using lbrack_plain(6) by (simp add: r)
  with assms(1) show False by simp
qed

lemma scan_append:
  assumes "\<And>pre post. p = pre @ lbrack # post \<Longrightarrow> rbrack \<in> set post"
  shows "matchAll (p @ r) = matchAll p @ matchAll r \<and> spokenOf (p @ r) = spokenOf p @ spokenOf r"
  using assms
proof (induction p rule: matchAll.induct)
  case (1 p)
  show ?case
  proof (cases "splitAt lbrack p")
    case None
    have mp: "matchAll p = []" "spokenOf p = p"
      using None by (simp_all add: matchAll.simps [of p] spokenOf.simps [of p])
    have sp: "splitAt lbrack (p @ r) =
        (case splitAt lbrack r of None \<Rightarrow> None | Some (b, a) \<Rightarrow> Some (p @ b, a))"
      using None by (rule splitAt_append_None)
    show ?thesis
    proof (cases "splitAt lbrack r")
      case rn: None
      with sp mp show ?thesis
        by (simp add: matchAll.simps [of "p @ r"] spokenOf.simps [of "p @ r"]
            matchAll.simps [of r] spokenOf.simps [of r])
    next
      case (Some y)
      obtain b a where y: "y = (b, a)" by (cases y)
      show ?thesis
      proof (cases "splitAt rbrack a")
        case an: None
        with sp mp Some y show ?thesis
          by (simp add: matchAll.simps [of "p @ r"] spokenOf.simps [of "p @ r"]
              matchAll.simps [of r] spokenOf.simps [of r])
      next
        case as: (Some z)
        obtain c af where z: "z = (c, af)" by (cases z)
        from sp mp Some y as z show ?thesis
          by (simp add: matchAll.simps [of "p @ r"] spokenOf.simps [of "p @ r"]
              matchAll.simps [of r] spokenOf.simps [of r])
      qed
    qed
  next
    case (Some x2)
    obtain before rest where x2: "x2 = (before, rest)" by (cases x2)
    from Some x2 have p1: "p = before @ lbrack # rest"
      using splitAt_Some by blast
    then have "rbrack \<in> set rest" by (rule "1.prems")
    then obtain x2a where inner: "splitAt rbrack rest = Some x2a"
      using splitAt_None [of rbrack rest] by (cases "splitAt rbrack rest") auto
    obtain content after where x2a: "x2a = (content, after)" by (cases x2a)
    from inner x2a have p2: "rest = content @ rbrack # after"
      using splitAt_Some by blast
    have closed_after: "rbrack \<in> set post" if "after = pre @ lbrack # post" for pre post
    proof -
      have "p = (before @ lbrack # content @ rbrack # pre) @ lbrack # post"
        by (simp add: p1 p2 that)
      then show ?thesis by (rule "1.prems")
    qed
    have IH: "matchAll (after @ r) = matchAll after @ matchAll r \<and>
              spokenOf (after @ r) = spokenOf after @ spokenOf r"
      using "1.IH" [OF Some x2 [symmetric] inner x2a [symmetric]] closed_after by blast
    have s1: "splitAt lbrack (p @ r) = Some (before, rest @ r)"
      using Some x2 by (simp add: splitAt_append_Some)
    have s2: "splitAt rbrack (rest @ r) = Some (content, after @ r)"
      using inner x2a by (simp add: splitAt_append_Some)
    show ?thesis
      using Some x2 inner x2a s1 s2 IH
      by (simp add: matchAll.simps [of "p @ r"] spokenOf.simps [of "p @ r"]
          matchAll.simps [of p] spokenOf.simps [of p])
  qed
qed

lemma spokenOf_plain:
  "\<forall>m\<in>set (matchAll p). \<not> isHtml (cleanContent m) \<Longrightarrow> spokenOf p = p"
proof (induction p rule: matchAll.induct)
  case (1 p)
  show ?case
  proof (cases "splitAt lbrack p")
    case None
    then show ?thesis by (simp add: spokenOf.simps [of p])
  next
    case (Some x2)
    obtain before rest where x2: "x2 = (before, rest)" by (cases x2)
    show ?thesis
    proof (cases "splitAt rbrack rest")
      case None
      with Some x2 show ?thesis by (simp add: spokenOf.simps [of p])
    next
      case inner: (Some x2a)
      obtain content after where x2a: "x2a = (content, after)" by (cases x2a)
      from Some x2 have p1: "p = before @ lbrack # rest"
        using splitAt_Some by blast
      from inner x2a have p2: "rest = content @ rbrack # after"
        using splitAt_Some by blast
      have ms: "matchAll p = (lbrack # content @ [rbrack]) # matchAll after"
        using Some x2 inner x2a by (simp add: matchAll.simps [of p])
      with "1.prems" have n: "\<not> isHtml (cleanContent (lbrack # content @ [rbrack]))"
        and r: "\<forall>m\<in>set (matchAll after). \<not> isHtml (cleanContent m)"
        by simp_all
      have "spokenOf after = after"
        using "1.IH" [OF Some x2 [symmetric] inner x2a [symmetric]] r by blast
      moreover have "spokenOf p = before @ (lbrack # content @ [rbrack]) @ spokenOf after"
        using Some x2 inner x2a n by (simp add: spokenOf.simps [of p])
      ultimately show ?thesis by (simp add: p1 p2)
    qed
  qed
qed

lemma scan_codes:
  assumes "\<forall>c\<in>set cs. rbrack \<notin> set c \<and> isHtml (cleanContent (lbrack # c @ [rbrack]))"
  shows "matchAll (concat (map (\<lambda>c. lbrack # c @ [rbrack]) cs)) = map (\<lambda>c. lbrack # c @ [rbrack]) cs \<and>
         spokenOf (concat (map (\<lambda>c. lbrack # c @ [rbrack]) cs)) = []"
  using assms
proof (induction cs)
  case Nil
  show ?case by (simp add: matchAll.simps [of "[]"] spokenOf.simps [of "[]"])
next
  case (Cons c cs)
  let ?R = "concat (map (\<lambda>c. lbrack # c @ [rbrack]) cs)"
  have c: "rbrack \<notin> set c" "isHtml (cleanContent (lbrack # c @ [rbrack]))"
    using Cons.prems by simp_all
  have s1: "splitAt lbrack (lbrack # c @ rbrack # ?R) = Some ([], c @ rbrack # ?R)" by simp
  have s2: "splitAt rbrack (c @ rbrack # ?R) = Some (c, ?R)"
    using c(1) by (rule splitAt_first)
  have IH: "matchAll ?R = map (\<lambda>c. lbrack # c @ [rbrack]) cs \<and> spokenOf ?R = []"
    using Cons.IH Cons.prems by simp
  show ?case
    using s1 s2 IH c(2)
    by (simp add: matchAll.simps [of "lbrack # c @ rbrack # ?R"]
        spokenOf.simps [of "lbrack # c @ rbrack # ?R"])
qed

section \<open>The regions of the spoken text\<close>

lemma matchAll_skip_gap:
  assumes "lbrack \<notin> set g"
  shows "matchAll (g @ X) = matchAll X"
proof -
  have "splitAt lbrack g = None" using assms by (simp add: splitAt_None)
  then have "splitAt lbrack (g @ X) =
      (case splitAt lbrack X of None \<Rightarrow> None | Some (b, a) \<Rightarrow> Some (g @ b, a))"
    by (rule splitAt_append_None)
  then show ?thesis
    by (simp add: matchAll.simps [of "g @ X"] matchAll.simps [of X] split: option.splits)
qed

lemma matchAll_region_first:
  assumes "lbrack \<notin> set g" "rbrack \<notin> set c"
  shows "matchAll (g @ (lbrack # c @ [rbrack]) @ X) = (lbrack # c @ [rbrack]) # matchAll X"
proof -
  have "matchAll (g @ (lbrack # c @ [rbrack]) @ X) = matchAll (lbrack # c @ rbrack # X)"
    using matchAll_skip_gap [OF assms(1), of "(lbrack # c @ [rbrack]) @ X"] by simp
  moreover have "splitAt rbrack (c @ rbrack # X) = Some (c, X)"
    using assms(2) by (rule splitAt_first)
  ultimately show ?thesis
    by (simp add: matchAll.simps [of "lbrack # c @ rbrack # X"])
qed

lemma matchAll_spokenOf:
  "matchAll (spokenOf t) = filter (\<lambda>m. \<not> isHtml (cleanContent m)) (matchAll t)"
proof (induction t rule: matchAll.induct)
  case (1 t)
  show ?case
  proof (cases "splitAt lbrack t")
    case None
    then show ?thesis by (simp add: matchAll.simps [of t] spokenOf.simps [of t])
  next
    case (Some x2)
    obtain before rest where x2: "x2 = (before, rest)" by (cases x2)
    show ?thesis
    proof (cases "splitAt rbrack rest")
      case None
      with Some x2 show ?thesis by (simp add: matchAll.simps [of t] spokenOf.simps [of t])
    next
      case inner: (Some x2a)
      obtain content after where x2a: "x2a = (content, after)" by (cases x2a)
      let ?m = "lbrack # content @ [rbrack]"
      from Some x2 have g: "lbrack \<notin> set before" using splitAt_Some by blast
      from inner x2a have c: "rbrack \<notin> set content" using splitAt_Some by blast
      have ms: "matchAll t = ?m # matchAll after"
        using Some x2 inner x2a by (simp add: matchAll.simps [of t])
      have IH: "matchAll (spokenOf after) =
          filter (\<lambda>m. \<not> isHtml (cleanContent m)) (matchAll after)"
        using "1.IH" [OF Some x2 [symmetric] inner x2a [symmetric]] .
      show ?thesis
      proof (cases "isHtml (cleanContent ?m)")
        case True
        then have "spokenOf t = before @ spokenOf after"
          using Some x2 inner x2a by (simp add: spokenOf.simps [of t])
        then show ?thesis
          using True IH ms matchAll_skip_gap [OF g] by simp
      next
        case False
        then have "spokenOf t = before @ ?m @ spokenOf after"
          using Some x2 inner x2a by (simp add: spokenOf.simps [of t])
        then show ?thesis
          using False IH ms matchAll_region_first [OF g c] by simp
      qed
    qed
  qed
qed

lemma matchAll_plain_tail:
  assumes "lbrack \<notin> set w" "rbrack \<notin> set w"
  shows "matchAll (s @ w) = matchAll s"
proof (induction s rule: matchAll.induct)
  case (1 s)
  have wl: "splitAt lbrack w = None" and wr: "splitAt rbrack w = None"
    using assms by (simp_all add: splitAt_None)
  show ?case
  proof (cases "splitAt lbrack s")
    case None
    then have "splitAt lbrack (s @ w) = None"
      using splitAt_append_None [OF None, of w] wl by simp
    with None show ?thesis by (simp add: matchAll.simps [of "s @ w"] matchAll.simps [of s])
  next
    case (Some x2)
    obtain before rest where x2: "x2 = (before, rest)" by (cases x2)
    have s1: "splitAt lbrack (s @ w) = Some (before, rest @ w)"
      using Some x2 by (simp add: splitAt_append_Some)
    show ?thesis
    proof (cases "splitAt rbrack rest")
      case None
      then have "splitAt rbrack (rest @ w) = None"
        using splitAt_append_None [OF None, of w] wr by simp
      with None Some x2 s1 show ?thesis
        by (simp add: matchAll.simps [of "s @ w"] matchAll.simps [of s])
    next
      case inner: (Some x2a)
      obtain content after where x2a: "x2a = (content, after)" by (cases x2a)
      have s2: "splitAt rbrack (rest @ w) = Some (content, after @ w)"
        using inner x2a by (simp add: splitAt_append_Some)
      have "matchAll (after @ w) = matchAll after"
        using "1.IH" [OF Some x2 [symmetric] inner x2a [symmetric]] .
      with Some x2 inner x2a s1 s2 show ?thesis
        by (simp add: matchAll.simps [of "s @ w"] matchAll.simps [of s])
    qed
  qed
qed

lemma rev_split: "rev (dropWhile P (rev xs)) @ rev (takeWhile P (rev xs)) = xs"
proof -
  have "rev (takeWhile P (rev xs) @ dropWhile P (rev xs)) = xs"
    by (simp only: takeWhile_dropWhile_id rev_rev_ident)
  then show ?thesis by (simp only: rev_append)
qed

lemma matchAll_trim: "matchAll (trim s) = matchAll s"
proof -
  let ?d = "dropWhile isWhiteSpace s"
  have ws: "\<not> isWhiteSpace lbrack" "\<not> isWhiteSpace rbrack" by (rule lbrack_plain)+
  have "lbrack \<notin> set (takeWhile isWhiteSpace s)"
    using ws(1) by (auto dest: set_takeWhileD)
  then have "matchAll (takeWhile isWhiteSpace s @ ?d) = matchAll ?d"
    by (rule matchAll_skip_gap)
  then have a: "matchAll ?d = matchAll s" by simp
  let ?w = "rev (takeWhile isWhiteSpace (rev ?d))"
  have d: "?d = trim s @ ?w"
    using rev_split [of isWhiteSpace ?d] by (simp add: trim_def)
  have "lbrack \<notin> set ?w" "rbrack \<notin> set ?w"
    using ws by (auto dest: set_takeWhileD)
  then have "matchAll (trim s @ ?w) = matchAll (trim s)" by (rule matchAll_plain_tail)
  with d a show ?thesis by simp
qed

lemma parse_regions:
  "matchAll (spokenText (parseAgentResponse t)) =
     filter (\<lambda>m. \<not> isHtml (cleanContent m)) (matchAll t)"
  by (simp add: parse_spoken matchAll_trim matchAll_spokenOf)

section \<open>Which regions are rendered\<close>

text \<open>
  C1, as the claim states it, fails: the region with the content \<open>x<html>\<close> is rendered,
  and its cleaned content does not start with a doctype or a root tag.
\<close>

theorem renderable_without_leading_marker:
  "matchAll (lbrack # ascii ''x<html>'' @ [rbrack]) = [lbrack # ascii ''x<html>'' @ [rbrack]] \<and>
   cleanContent (lbrack # ascii ''x<html>'' @ [rbrack]) = ascii ''x<html>'' \<and>
   codes (parseAgentResponse (lbrack # ascii ''x<html>'' @ [rbrack])) = [ascii ''x<html>''] \<and>
   \<not> spec_startsWithRootMarker (ascii ''x<html>'')"
  by (simp add: parser_eval spec_startsWithRootMarker_def toLowerAscii_def)

text \<open>
  C1, amended. The codes returned are, in order, the cleaned contents of the completed
  regions that contain \<open><html\<close> or \<open><!DOCTYPE\<close> anywhere, in exactly this letter case:
  a region is rendered if and only if its cleaned content contains one of the two.
\<close>

theorem renderable_iff_contains_marker:
  "codes (parseAgentResponse t) =
     filter (\<lambda>c. includesStr c (ascii ''<html'') \<or> includesStr c (ascii ''<!DOCTYPE''))
       (map cleanContent (matchAll t))"
  using parse_codes [of t] by (simp add: isHtml_def [abs_def])

theorem renderable_iff_contains_marker_example:
  "codes (parseAgentResponse
      (lbrack # ascii ''<!doctype html>'' @ [rbrack] @ lbrack # ascii ''see <html>'' @ [rbrack]))
     = [ascii ''see <html>'']"
  using renderable_iff_contains_marker
    [of "lbrack # ascii ''<!doctype html>'' @ [rbrack] @ lbrack # ascii ''see <html>'' @ [rbrack]"]
  by (simp add: parser_eval)

section \<open>Reassembling the input\<close>

text \<open>
  C2, as the claim states it, fails: the parser trims the spoken text, so the input
  \<open>a\<close> followed by a space comes back as \<open>a\<close>, the same result as for the input \<open>a\<close>;
  and a code is returned without its place in the text.
\<close>

theorem roundtrip_fails:
  "parseAgentResponse (ascii ''a '') = \<lparr>spokenText = ascii ''a'', codes = []\<rparr> \<and>
   parseAgentResponse (ascii ''a'') = \<lparr>spokenText = ascii ''a'', codes = []\<rparr> \<and>
   spec_reassemble (parseAgentResponse (ascii ''a '')) \<noteq> ascii ''a '' \<and>
   parseAgentResponse (ascii ''a'' @ lbrack # ascii ''<html>'' @ [rbrack] @ ascii ''b'')
     = \<lparr>spokenText = ascii ''ab'', codes = [ascii ''<html>'']\<rparr> \<and>
   spec_reassemble (parseAgentResponse (ascii ''a'' @ lbrack # ascii ''<html>'' @ [rbrack] @ ascii ''b''))
     \<noteq> ascii ''a'' @ lbrack # ascii ''<html>'' @ [rbrack] @ ascii ''b''"
  by (simp add: parser_eval spec_reassemble_def)

text \<open>
  C2, amended. Putting the returned texts together (the spoken text, then each code in
  brackets) gives, for every input, the input with each renderable region cut out and the
  ends trimmed, followed by the cleaned renderable regions in brackets. It gives the input
  back exactly when the input is a spoken part followed by renderable regions, where the
  spoken part has no white space at either end and no renderable region, every open
  bracket of it is closed (or no region follows), and cleaning leaves the content of each
  region as it is.
\<close>

theorem reassembled_text:
  "spec_reassemble (parseAgentResponse t) =
     trim (spokenOf t) @
     concat (map (\<lambda>m. lbrack # cleanContent m @ [rbrack])
               (filter (\<lambda>m. isHtml (cleanContent m)) (matchAll t))) \<and>
   (t = p @ concat (map (\<lambda>c. lbrack # c @ [rbrack]) cs) \<and>
    trim p = p \<and>
    (cs = [] \<or> lbrack \<notin> set (takeWhile (\<lambda>x. x \<noteq> rbrack) (rev p))) \<and>
    (\<forall>m\<in>set (matchAll p). \<not> isHtml (cleanContent m)) \<and>
    (\<forall>c\<in>set cs. rbrack \<notin> set c \<and> isHtml c \<and> cleanContent (lbrack # c @ [rbrack]) = c)
    \<longrightarrow> parseAgentResponse t = \<lparr>spokenText = p, codes = cs\<rparr> \<and>
        spec_reassemble (parseAgentResponse t) = t)"
proof (intro conjI impI)
  have "codes (parseAgentResponse t) =
      map cleanContent (filter (\<lambda>m. isHtml (cleanContent m)) (matchAll t))"
    by (simp add: parse_codes filter_map comp_def)
  then show "spec_reassemble (parseAgentResponse t) =
     trim (spokenOf t) @
     concat (map (\<lambda>m. lbrack # cleanContent m @ [rbrack])
               (filter (\<lambda>m. isHtml (cleanContent m)) (matchAll t)))"
    by (simp add: spec_reassemble_def parse_spoken comp_def)
next
  assume a: "t = p @ concat (map (\<lambda>c. lbrack # c @ [rbrack]) cs) \<and>
    trim p = p \<and>
    (cs = [] \<or> lbrack \<notin> set (takeWhile (\<lambda>x. x \<noteq> rbrack) (rev p))) \<and>
    (\<forall>m\<in>set (matchAll p). \<not> isHtml (cleanContent m)) \<and>
    (\<forall>c\<in>set cs. rbrack \<notin> set c \<and> isHtml c \<and> cleanContent (lbrack # c @ [rbrack]) = c)"
  let ?w = "\<lambda>c. lbrack # c @ [rbrack]"
  let ?R = "concat (map ?w cs)"
  from a have t: "t = p @ ?R" and tp: "trim p = p"
    and cl: "cs = [] \<or> lbrack \<notin> set (takeWhile (\<lambda>x. x \<noteq> rbrack) (rev p))"
    and np: "\<forall>m\<in>set (matchAll p). \<not> isHtml (cleanContent m)"
    and cc: "\<forall>c\<in>set cs. rbrack \<notin> set c \<and> isHtml c \<and> cleanContent (?w c) = c"
    by blast+
  have sa: "matchAll (p @ ?R) = matchAll p @ matchAll ?R \<and> spokenOf (p @ ?R) = spokenOf p @ spokenOf ?R"
  proof (cases "cs = []")
    case True
    then show ?thesis by (simp add: matchAll.simps [of "[]"] spokenOf.simps [of "[]"])
  next
    case False
    with cl have "lbrack \<notin> set (takeWhile (\<lambda>x. x \<noteq> rbrack) (rev p))" by simp
    then show ?thesis by (intro scan_append closed_tail)
  qed
  have "\<forall>c\<in>set cs. rbrack \<notin> set c \<and> isHtml (cleanContent (?w c))"
    using cc by simp
  then have sc: "matchAll ?R = map ?w cs \<and> spokenOf ?R = []" by (rule scan_codes)
  have sp: "spokenOf p = p" using np by (rule spokenOf_plain)
  have f1: "filter isHtml (map cleanContent (matchAll p)) = []"
    using np by (simp add: filter_empty_conv)
  have "map cleanContent (map ?w cs) = cs"
    using cc by (simp add: map_idI)
  moreover have "filter isHtml cs = cs" using cc by simp
  ultimately have f2: "filter isHtml (map cleanContent (map ?w cs)) = cs" by simp
  have st: "spokenText (parseAgentResponse t) = p"
    using sa sc sp tp by (simp add: parse_spoken t)
  have cd: "codes (parseAgentResponse t) = cs"
    using sa sc f1 f2 by (simp add: parse_codes t)
  from st cd show "parseAgentResponse t = \<lparr>spokenText = p, codes = cs\<rparr>"
    by (cases "parseAgentResponse t") simp
  from st cd show "spec_reassemble (parseAgentResponse t) = t"
    by (simp add: spec_reassemble_def t)
qed

theorem reassembled_text_example:
  "trim (ascii ''hi '' @ lbrack # ascii ''nope'' @ [rbrack] @ ascii '' there'')
     = ascii ''hi '' @ lbrack # ascii ''nope'' @ [rbrack] @ ascii '' there'' \<and>
   lbrack \<notin> set (takeWhile (\<lambda>x. x \<noteq> rbrack)
       (rev (ascii ''hi '' @ lbrack # ascii ''nope'' @ [rbrack] @ ascii '' there''))) \<and>
   matchAll (ascii ''hi '' @ lbrack # ascii ''nope'' @ [rbrack] @ ascii '' there'')
     = [lbrack # ascii ''nope'' @ [rbrack]] \<and>
   \<not> isHtml (cleanContent (lbrack # ascii ''nope'' @ [rbrack])) \<and>
   isHtml (ascii ''<html>1</html>'') \<and> isHtml (ascii ''<!DOCTYPE html>'') \<and>
   parseAgentResponse
     ((ascii ''hi '' @ lbrack # ascii ''nope'' @ [rbrack] @ ascii '' there'') @
      concat (map (\<lambda>c. lbrack # c @ [rbrack]) [ascii ''<html>1</html>'', ascii ''<!DOCTYPE html>'']))
     = \<lparr>spokenText = ascii ''hi '' @ lbrack # ascii ''nope'' @ [rbrack] @ ascii '' there'',
        codes = [ascii ''<html>1</html>'', ascii ''<!DOCTYPE html>'']\<rparr> \<and>
   spec_reassemble (parseAgentResponse
     ((ascii ''hi '' @ lbrack # ascii ''nope'' @ [rbrack] @ ascii '' there'') @
      concat (map (\<lambda>c. lbrack # c @ [rbrack]) [ascii ''<html>1</html>'', ascii ''<!DOCTYPE html>''])))
     = (ascii ''hi '' @ lbrack # ascii ''nope'' @ [rbrack] @ ascii '' there'') @
       concat (map (\<lambda>c. lbrack # c @ [rbrack]) [ascii ''<html>1</html>'', ascii ''<!DOCTYPE html>''])"
proof -
  let ?p = "ascii ''hi '' @ lbrack # ascii ''nope'' @ [rbrack] @ ascii '' there''"
  let ?cs = "[ascii ''<html>1</html>'', ascii ''<!DOCTYPE html>'']"
  have tp: "trim ?p = ?p" by (simp add: parser_eval)
  have cl: "lbrack \<notin> set (takeWhile (\<lambda>x. x \<noteq> rbrack) (rev ?p))" by (simp add: parser_eval)
  have mp: "matchAll ?p = [lbrack # ascii ''nope'' @ [rbrack]]" by (simp add: parser_eval)
  have nh: "\<not> isHtml (cleanContent (lbrack # ascii ''nope'' @ [rbrack]))" by (simp add: parser_eval)
  have h: "isHtml (ascii ''<html>1</html>'')" "isHtml (ascii ''<!DOCTYPE html>'')"
    by (simp_all add: parser_eval)
  have cc: "rbrack \<notin> set (ascii ''<html>1</html>'')" "rbrack \<notin> set (ascii ''<!DOCTYPE html>'')"
    "cleanContent (lbrack # ascii ''<html>1</html>'' @ [rbrack]) = ascii ''<html>1</html>''"
    "cleanContent (lbrack # ascii ''<!DOCTYPE html>'' @ [rbrack]) = ascii ''<!DOCTYPE html>''"
    by (simp_all add: parser_eval)
  have np: "\<forall>m\<in>set (matchAll ?p). \<not> isHtml (cleanContent m)" using mp nh by simp
  have ac: "\<forall>c\<in>set ?cs. rbrack \<notin> set c \<and> isHtml c \<and> cleanContent (lbrack # c @ [rbrack]) = c"
    using h cc by simp
  from reassembled_text [of "?p @ concat (map (\<lambda>c. lbrack # c @ [rbrack]) ?cs)" ?p ?cs]
    tp cl np ac
  have "parseAgentResponse (?p @ concat (map (\<lambda>c. lbrack # c @ [rbrack]) ?cs))
          = \<lparr>spokenText = ?p, codes = ?cs\<rparr> \<and>
        spec_reassemble (parseAgentResponse (?p @ concat (map (\<lambda>c. lbrack # c @ [rbrack]) ?cs)))
          = ?p @ concat (map (\<lambda>c. lbrack # c @ [rbrack]) ?cs)"
    by blast
  with tp cl mp nh h show ?thesis by blast
qed

section \<open>Regions that are not rendered stay in the spoken text\<close>

text \<open>
  C3, as the claim states it, fails: the region with the content \<open>x<html>\<close> fails the
  specification's heuristic (its cleaned content does not start with a doctype or a root
  tag), and the parser renders it all the same: it is cut out of the spoken text, and the
  final fragment leaves no transcript entry.
\<close>

theorem late_marker_region_dropped:
  "matchAll (m_text finalLateMarker) = [lbrack # ascii ''x<html>'' @ [rbrack]] \<and>
   \<not> spec_startsWithRootMarker (cleanContent (lbrack # ascii ''x<html>'' @ [rbrack])) \<and>
   spokenText (parseAgentResponse (m_text finalLateMarker)) = [] \<and>
   transcript (transcriptionCallback 7 finalLateMarker page1) = transcript page1"
  by (simp add: finalLateMarker_def transcriptionCallback_def Let_def commitCode_def parser_eval
      spec_startsWithRootMarker_def toLowerAscii_def page1_def)

text \<open>
  C3, amended. A completed region whose cleaned content contains neither \<open><html\<close> nor
  \<open><!DOCTYPE\<close> (the test the parser applies) is kept in the spoken text as it stands,
  brackets included, and in its place: the spoken text is the input with exactly the
  renderable regions cut out and the ends trimmed, and its completed regions are the
  unrendered regions of the input, in order and as often as they occur. On a final
  fragment the spoken text is appended to the transcript. The final fragment with the
  bracketed text "just kidding, no code here" puts the whole bracketed text into the
  transcript.
\<close>

theorem unrenderable_region_kept:
  "spokenText (parseAgentResponse (m_text msg)) = trim (spokenOf (m_text msg)) \<and>
   matchAll (spokenText (parseAgentResponse (m_text msg))) =
     filter (\<lambda>m. \<not> isHtml (cleanContent m)) (matchAll (m_text msg)) \<and>
   (m \<in> set (matchAll (m_text msg)) \<and> \<not> isHtml (cleanContent m) \<longrightarrow>
      (\<exists>ps ss. spokenText (parseAgentResponse (m_text msg)) = ps @ m @ ss) \<and>
      (m_isFinal msg \<longrightarrow>
         transcript (transcriptionCallback now msg s) =
           transcript s @ [\<lparr>e_type = m_type msg,
                            e_text = spokenText (parseAgentResponse (m_text msg)),
                            e_timestamp = now\<rparr>])) \<and>
   transcript (transcriptionCallback now justKidding s) =
     transcript s @ [\<lparr>e_type = Agent, e_text = m_text justKidding, e_timestamp = now\<rparr>]"
proof (intro conjI impI)
  show "spokenText (parseAgentResponse (m_text msg)) = trim (spokenOf (m_text msg))"
    by (rule parse_spoken)
next
  show "matchAll (spokenText (parseAgentResponse (m_text msg))) =
     filter (\<lambda>m. \<not> isHtml (cleanContent m)) (matchAll (m_text msg))"
    by (rule parse_regions)
next
  assume a: "m \<in> set (matchAll (m_text msg)) \<and> \<not> isHtml (cleanContent m)"
  then have sub: "sublist m (spokenText (parseAgentResponse (m_text msg)))"
    using region_kept by blast
  then show "\<exists>ps ss. spokenText (parseAgentResponse (m_text msg)) = ps @ m @ ss"
    by (simp add: sublist_def)
  obtain c where "m = lbrack # c @ [rbrack]" using matchAll_region a by blast
  then have "m \<noteq> []" by simp
  with sub have ne: "spokenText (parseAgentResponse (m_text msg)) \<noteq> []" by auto
  assume "m_isFinal msg"
  with ne show "transcript (transcriptionCallback now msg s) =
           transcript s @ [\<lparr>e_type = m_type msg,
                            e_text = spokenText (parseAgentResponse (m_text msg)),
                            e_timestamp = now\<rparr>]"
    by (simp add: transcriptionCallback_def Let_def transcript_commit)
next
  have p: "parseAgentResponse (m_text justKidding) = \<lparr>spokenText = m_text justKidding, codes = []\<rparr>"
    by (simp add: justKidding_def parser_eval)
  have f: "m_isFinal justKidding" "m_type justKidding = Agent" "m_text justKidding \<noteq> []"
    by (simp_all add: justKidding_def)
  show "transcript (transcriptionCallback now justKidding s) =
     transcript s @ [\<lparr>e_type = Agent, e_text = m_text justKidding, e_timestamp = now\<rparr>]"
    by (simp add: transcriptionCallback_def Let_def p f)
qed

theorem unrenderable_region_kept_example:
  "lbrack # ascii ''no'' @ [rbrack] \<in> set (matchAll (m_text finalMixed)) \<and>
   \<not> isHtml (cleanContent (lbrack # ascii ''no'' @ [rbrack])) \<and>
   m_isFinal finalMixed \<and>
   spokenOf (m_text finalMixed) =
     (lbrack # ascii ''no'' @ [rbrack]) @ ascii '' x'' @ (lbrack # ascii ''no'' @ [rbrack]) \<and>
   spokenText (parseAgentResponse (m_text finalMixed)) =
     (lbrack # ascii ''no'' @ [rbrack]) @ ascii '' x'' @ (lbrack # ascii ''no'' @ [rbrack]) \<and>
   matchAll (spokenText (parseAgentResponse (m_text finalMixed))) =
     [lbrack # ascii ''no'' @ [rbrack], lbrack # ascii ''no'' @ [rbrack]] \<and>
   transcript (transcriptionCallback 7 finalMixed page1) =
     transcript page1 @
       [\<lparr>e_type = Agent,
         e_text = (lbrack # ascii ''no'' @ [rbrack]) @ ascii '' x'' @ (lbrack # ascii ''no'' @ [rbrack]),
         e_timestamp = 7\<rparr>]"
proof -
  have m: "matchAll (m_text finalMixed) =
      [lbrack # ascii ''no'' @ [rbrack], lbrack # ascii ''<html>'' @ [rbrack], lbrack # ascii ''no'' @ [rbrack]]"
    by (simp add: finalMixed_def parser_eval)
  have h: "\<not> isHtml (cleanContent (lbrack # ascii ''no'' @ [rbrack]))"
    by (simp add: parser_eval)
  have h2: "isHtml (cleanContent (lbrack # ascii ''<html>'' @ [rbrack]))"
    by (simp add: parser_eval)
  have so: "spokenOf (m_text finalMixed) =
     (lbrack # ascii ''no'' @ [rbrack]) @ ascii '' x'' @ (lbrack # ascii ''no'' @ [rbrack])"
    by (simp add: finalMixed_def parser_eval spokenOf.simps)
  have tr: "trim ((lbrack # ascii ''no'' @ [rbrack]) @ ascii '' x'' @ (lbrack # ascii ''no'' @ [rbrack])) =
     (lbrack # ascii ''no'' @ [rbrack]) @ ascii '' x'' @ (lbrack # ascii ''no'' @ [rbrack])"
    by (simp add: parser_eval)
  have f: "m_isFinal finalMixed" "m_type finalMixed = Agent" by (simp_all add: finalMixed_def)
  from m have i: "lbrack # ascii ''no'' @ [rbrack] \<in> set (matchAll (m_text finalMixed))" by simp
  note T = unrenderable_region_kept [of finalMixed "lbrack # ascii ''no'' @ [rbrack]" 7 page1]
  have st: "spokenText (parseAgentResponse (m_text finalMixed)) =
     (lbrack # ascii ''no'' @ [rbrack]) @ ascii '' x'' @ (lbrack # ascii ''no'' @ [rbrack])"
    by (simp only: T [THEN conjunct1] so tr)
  have mr: "matchAll (spokenText (parseAgentResponse (m_text finalMixed))) =
     [lbrack # ascii ''no'' @ [rbrack], lbrack # ascii ''no'' @ [rbrack]]"
    by (simp only: T [THEN conjunct2, THEN conjunct1] m) (simp add: h h2)
  have tx: "transcript (transcriptionCallback 7 finalMixed page1) =
     transcript page1 @
       [\<lparr>e_type = Agent,
         e_text = (lbrack # ascii ''no'' @ [rbrack]) @ ascii '' x'' @ (lbrack # ascii ''no'' @ [rbrack]),
         e_timestamp = 7\<rparr>]"
    using T [THEN conjunct2, THEN conjunct2, THEN conjunct1] i h f st by simp
  from i h f so st mr tx show ?thesis by blast
qed

section \<open>Commits happen on final fragments only\<close>

text \<open>
  C4. A fragment with \<open>isFinal = false\<close> appends nothing to the list of code versions and
  leaves the current code as it was, whatever its text: code is committed only by a
  fragment whose \<open>isFinal\<close> flag is true.
\<close>

theorem interim_commits_nothing:
  "\<not> m_isFinal msg \<Longrightarrow>
     codeBlocks (transcriptionCallback now msg s) = codeBlocks s \<and>
     currentCode (transcriptionCallback now msg s) = currentCode s"
  by (simp add: transcriptionCallback_def Let_def)

theorem interim_commits_nothing_example:
  "\<not> m_isFinal interimWithCode \<and>
   codeBlocks (transcriptionCallback 7 interimWithCode page1) = codeBlocks page1 \<and>
   currentCode (transcriptionCallback 7 interimWithCode page1) = currentCode page1"
  using interim_commits_nothing [of interimWithCode 7 page1]
  by (simp add: interimWithCode_def)




section \<open>Disconnecting\<close>



section \<open>The listener\<close>

lemma andThen_Inr_iff: "andThen r f = Inr y \<longleftrightarrow> (\<exists>v. r = Inr v \<and> f v = Inr y)"
  by (cases r) (simp_all add: andThen_def)

lemma andThen_simps [simp]: "andThen (Inl e) f = Inl e" "andThen (Inr v) f = f v"
  by (simp_all add: andThen_def)

lemmas listener_eval =
  ascii_def parseMessage_def handleTranscription_def extractText_def onMessage_def tryBlock_def
  orElse_def pageAfterMessage_def

lemma getProp_total:
  "(\<forall>k. getProp data k = Inl TypeError) \<or> (\<forall>k. \<exists>v. getProp data k = Inr v)"
  by (cases data) auto

text \<open>What a call of the callback says about the data it was built from.\<close>

lemma handleTranscription_Some:
  assumes "handleTranscription hasCallback now data = Inr (Some m)"
  shows "m_isFinal m =
           (getProp data ''turn_status'' = Inr (JNum (Fin 1)) \<or>
            getProp data ''final'' = Inr (JBool True)) \<and>
         m_text m \<noteq> [] \<and> extractText data = Inr (JStr (m_text m))"
proof -
  from getProp_total [of data] show ?thesis
  proof
    assume "\<forall>k. getProp data k = Inl TypeError"
    then have "handleTranscription hasCallback now data = Inl TypeError"
      by (simp add: handleTranscription_def)
    with assms show ?thesis by simp
  next
    assume "\<forall>k. \<exists>v. getProp data k = Inr v"
    then obtain f where f: "\<And>k. getProp data k = Inr (f k)" by metis
    have e: "extractText data =
        Inr (orElse (f ''text'') (orElse (f ''words'') (orElse (f ''transcription'') (JStr []))))"
      by (simp add: extractText_def f)
    obtain v where
      v: "orElse (f ''text'') (orElse (f ''words'') (orElse (f ''transcription'') (JStr []))) = v"
      by simp
    from assms show ?thesis
      unfolding handleTranscription_def e f
      by (cases v) (auto simp: Let_def e v split: if_splits)
  qed
qed

lemma onMessage_Some:
  assumes "callbackArg (onMessage jsonParse channel hasCallback now event) = Some m"
  shows "\<exists>data. parseMessage jsonParse (message event) = Inr data \<and>
           handleTranscription hasCallback now data = Inr (Some m)"
  using assms unfolding onMessage_def tryBlock_def
  by (auto simp: andThen_Inr_iff split: sum.splits if_splits)

lemma handleTranscription_non_record:
  assumes "\<forall>fs. data \<noteq> JObj fs"
  shows "handleTranscription hasCallback now data = Inl TypeError \<or>
         handleTranscription hasCallback now data = Inr None"
  using assms by (cases data) (simp_all add: handleTranscription_def)

text \<open>
  A payload that parses to something other than an object (a number, a string, an array,
  \<open>null\<close>) is dropped as well.
\<close>

lemma non_record_dropped:
  assumes "parseMessage jsonParse (message event) = Inr data" and "\<forall>fs. data \<noteq> JObj fs"
  shows "callbackArg (onMessage jsonParse channel hasCallback now event) = None \<and>
         escaped (onMessage jsonParse channel hasCallback now event) = None \<and>
         pageAfterMessage jsonParse channel now event s = s"
proof -
  have "callbackArg (onMessage jsonParse channel b now event) = None" for b
    using assms(1) handleTranscription_non_record [OF assms(2), of b now]
    by (auto simp: onMessage_def tryBlock_def)
  moreover have "escaped (onMessage jsonParse channel hasCallback now event) = None"
    by (simp add: onMessage_def split: sum.splits)
  ultimately show ?thesis by (simp add: pageAfterMessage_def)
qed



text \<open>
  C7. When turning the payload into \<open>data\<close> throws (\<open>JSON.parse\<close> rejects the string, or
  the payload is \<open>null\<close>), the message is dropped: the callback is not called, the page
  state is as before, nothing is thrown out of the listener, and the error is logged
  (unless the message was for another channel, which is left before any parsing).
\<close>

theorem parse_failure_dropped:
  assumes "parseMessage jsonParse (message event) = Inl err"
  shows "callbackArg (onMessage jsonParse channel hasCallback now event) = None \<and>
         escaped (onMessage jsonParse channel hasCallback now event) = None \<and>
         loggedErrors (onMessage jsonParse channel hasCallback now event) =
           (if truthy (channelName event) \<and> channelName event \<noteq> JStr channel then [] else [err]) \<and>
         pageAfterMessage jsonParse channel now event s = s"
  using assms by (simp add: onMessage_def tryBlock_def pageAfterMessage_def)

theorem parse_failure_dropped_example:
  "parseMessage sampleParse
     (message \<lparr>channelName = JStr (ascii ''room''), message = JStr (ascii ''not json'')\<rparr>)
     = Inl SyntaxError \<and>
   onMessage sampleParse (ascii ''room'') True 42
     \<lparr>channelName = JStr (ascii ''room''), message = JStr (ascii ''not json'')\<rparr>
     = \<lparr>callbackArg = None, loggedErrors = [SyntaxError], escaped = None\<rparr> \<and>
   pageAfterMessage sampleParse (ascii ''room'') 42
     \<lparr>channelName = JStr (ascii ''room''), message = JStr (ascii ''not json'')\<rparr> page1 = page1"
  using parse_failure_dropped [of sampleParse
      "\<lparr>channelName = JStr (ascii ''room''), message = JStr (ascii ''not json'')\<rparr>" SyntaxError
      "ascii ''room''" True 42 page1]
  by (simp add: listener_eval sampleParse_def)

text \<open>
  C9. A message that carries a channel name (a truthy \<open>event.channelName\<close>: for a string,
  a non-empty one) other than the channel of the session is left at once: the callback is
  not called and nothing is parsed or logged.
\<close>

theorem foreign_channel_ignored:
  assumes "truthy (channelName event)" and "channelName event \<noteq> JStr channel"
  shows "onMessage jsonParse channel hasCallback now event =
           \<lparr>callbackArg = None, loggedErrors = [], escaped = None\<rparr>"
  using assms by (simp add: onMessage_def tryBlock_def)

theorem foreign_channel_ignored_example:
  "truthy (channelName \<lparr>channelName = JStr (ascii ''other''), message = agentFinal\<rparr>) \<and>
   channelName \<lparr>channelName = JStr (ascii ''other''), message = agentFinal\<rparr> \<noteq> JStr (ascii ''room'') \<and>
   onMessage sampleParse (ascii ''room'') True 42
     \<lparr>channelName = JStr (ascii ''other''), message = agentFinal\<rparr>
     = \<lparr>callbackArg = None, loggedErrors = [], escaped = None\<rparr>"
  using foreign_channel_ignored [of "\<lparr>channelName = JStr (ascii ''other''), message = agentFinal\<rparr>"
      "ascii ''room''" sampleParse True 42]
  by (simp add: ascii_def)

text \<open>
  C10. The callback is never called with an empty text; a message whose extracted text
  (\<open>data.text || data.words || data.transcription || ""\<close>) is the empty string is
  dropped, whatever its tag and finality say.
\<close>

theorem callback_text_nonempty:
  "(\<forall>m. callbackArg (onMessage jsonParse channel hasCallback now event) = Some m \<longrightarrow>
        m_text m \<noteq> []) \<and>
   (\<forall>data. parseMessage jsonParse (message event) = Inr data \<and>
           extractText data = Inr (JStr []) \<longrightarrow>
        callbackArg (onMessage jsonParse channel hasCallback now event) = None)"
proof (intro conjI allI impI)
  fix m assume "callbackArg (onMessage jsonParse channel hasCallback now event) = Some m"
  then show "m_text m \<noteq> []"
    using onMessage_Some handleTranscription_Some by blast
next
  fix data
  assume a: "parseMessage jsonParse (message event) = Inr data \<and> extractText data = Inr (JStr [])"
  show "callbackArg (onMessage jsonParse channel hasCallback now event) = None"
  proof (cases "callbackArg (onMessage jsonParse channel hasCallback now event)")
    case None
    then show ?thesis .
  next
    case (Some m)
    from onMessage_Some [OF Some] a have "handleTranscription hasCallback now data = Inr (Some m)"
      by auto
    from handleTranscription_Some [OF this] a show ?thesis by auto
  qed
qed

theorem callback_text_nonempty_example:
  "callbackArg (onMessage sampleParse (ascii ''room'') True 42
       \<lparr>channelName = JUndefined, message = agentFinal\<rparr>)
     = Some \<lparr>m_type = Agent, m_text = ascii ''hi'', m_isFinal = True, m_timestamp = 42\<rparr> \<and>
   m_text \<lparr>m_type = Agent, m_text = ascii ''hi'', m_isFinal = True, m_timestamp = 42\<rparr> \<noteq> [] \<and>
   parseMessage sampleParse (message \<lparr>channelName = JUndefined, message = agentEmpty\<rparr>)
     = Inr agentEmpty \<and>
   extractText agentEmpty = Inr (JStr []) \<and>
   callbackArg (onMessage sampleParse (ascii ''room'') True 42
       \<lparr>channelName = JUndefined, message = agentEmpty\<rparr>) = None"
  using
    callback_text_nonempty [of sampleParse "ascii ''room''" True 42
      "\<lparr>channelName = JUndefined, message = agentFinal\<rparr>"]
    callback_text_nonempty [of sampleParse "ascii ''room''" True 42
      "\<lparr>channelName = JUndefined, message = agentEmpty\<rparr>"]
  by (simp add: listener_eval agentFinal_def agentEmpty_def)

end
